theory Spec2Isabelle
  imports Main "HOL-Library.Word"
begin

section \<open>Data model of \<^verbatim>\<open>malloc_in_c_implementation.c\<close>\<close>

text \<open>
  Pointers and \<^verbatim>\<open>size_t\<close> are 64-bit words (LP64), \<^verbatim>\<open>int\<close> is a 32-bit word read
  in two's complement. The null pointer is the address 0.
\<close>

type_synonym addr = "64 word"
type_synonym c_int = "32 word"

abbreviation NULL :: addr where
  "NULL \<equiv> 0"

text \<open>
  \<^verbatim>\<open>typedef struct Block { size_t size; struct Block *next; int is_free; } Block;\<close>
  The fields \<^verbatim>\<open>size\<close> and \<^verbatim>\<open>next\<close> carry the suffix \<open>_B\<close>: both names are taken
  in Isabelle.
\<close>

record Block =
  size_B :: addr
  next_B :: addr
  is_free :: c_int

text \<open>
  \<^verbatim>\<open>sizeof(Block)\<close> on LP64: 8 bytes of \<^verbatim>\<open>size_t\<close>, 8 of pointer, 4 of \<^verbatim>\<open>int\<close>
  and 4 of tail padding.
\<close>

definition sizeof_Block :: addr where
  "sizeof_Block = 24"

text \<open>
  The state the function works on. \<open>free_list\<close> is the global of the source;
  \<open>mem\<close> is the store of block headers, read and written through \<^verbatim>\<open>Block *\<close>
  pointers (one header per address: reading an address yields whatever header is
  there; headers at different addresses are independent, so bytes shared by two
  overlapping headers are not represented, and \<open>well_formed\<close> below excludes overlap);
  \<open>brk\<close> and \<open>brk_limit\<close> are the program break and the highest break the operating
  system grants; \<open>sbrk_calls\<close> records every increment passed to \<^verbatim>\<open>sbrk\<close>, in order.
\<close>

record state =
  free_list :: addr
  mem :: "addr \<Rightarrow> Block"
  brk :: addr
  brk_limit :: addr
  sbrk_calls :: "addr list"

section \<open>The heap extender\<close>

text \<open>
  Modelled from the spec: \<^verbatim>\<open>sbrk\<close> is the operating system's program-break primitive,
  outside the repository. It takes a signed increment (\<^verbatim>\<open>intptr_t\<close>), returns the
  previous break and moves the break on success, and returns \<^verbatim>\<open>(void *)-1\<close> and leaves
  the break where it is on failure. It fails when the new break would leave the range
  from 0 to \<open>brk_limit\<close>.
\<close>

definition sbrk :: "state \<Rightarrow> addr \<Rightarrow> addr \<times> state" where
  "sbrk s increment =
     (let s' = s\<lparr>sbrk_calls := sbrk_calls s @ [increment]\<rparr>;
          new = uint (brk s) + sint increment
      in if 0 \<le> new \<and> new \<le> uint (brk_limit s)
         then (brk s, s'\<lparr>brk := brk s + increment\<rparr>)
         else (- 1, s'))"

text \<open>\<^verbatim>\<open>void *request_memory(size_t size)\<close>\<close>

definition request_memory :: "state \<Rightarrow> addr \<Rightarrow> addr \<times> state" where
  "request_memory s sz =
     (let (ptr, s') = sbrk s sz
      in if ptr = - 1 then (NULL, s') else (ptr, s'))"

section \<open>Assignments to the fields of a header\<close>

definition set_size :: "(addr \<Rightarrow> Block) \<Rightarrow> addr \<Rightarrow> addr \<Rightarrow> (addr \<Rightarrow> Block)" where
  "set_size m p v = m(p := (m p)\<lparr>size_B := v\<rparr>)"

definition set_next :: "(addr \<Rightarrow> Block) \<Rightarrow> addr \<Rightarrow> addr \<Rightarrow> (addr \<Rightarrow> Block)" where
  "set_next m p v = m(p := (m p)\<lparr>next_B := v\<rparr>)"

definition set_is_free :: "(addr \<Rightarrow> Block) \<Rightarrow> addr \<Rightarrow> c_int \<Rightarrow> (addr \<Rightarrow> Block)" where
  "set_is_free m p v = m(p := (m p)\<lparr>is_free := v\<rparr>)"

section \<open>\<^verbatim>\<open>my_malloc\<close>\<close>

text \<open>
  Lines 40 to 67, the body of \<^verbatim>\<open>if (free_list == NULL)\<close>. The result is \<open>Inl\<close> of the
  returned pointer and the state when the body returns, and \<open>Inr\<close> of the state when
  control falls through to the search below it.
\<close>

definition empty_catalog_path :: "state \<Rightarrow> c_int \<Rightarrow> addr \<Rightarrow> (addr \<times> state) + state" where
  "empty_catalog_path s sz total_size =
     (let (newblock, s1) = request_memory s total_size
      in if newblock = NULL then Inl (NULL, s1)
         else
           let m1 = set_size (mem s1) newblock (scast sz);
               m2 = set_next m1 newblock NULL;
               m3 = set_is_free m2 newblock 0;
               s2 = s1\<lparr>mem := m3, free_list := NULL\<rparr>
           in if newblock \<noteq> NULL then Inl (newblock + sizeof_Block, s2) else Inr s2)"

text \<open>
  Lines 80 to 103, the body of the test inside the loop: the block \<open>current\<close> is marked
  allocated, split when it is too big, and its payload pointer is returned.
\<close>

definition take_block :: "state \<Rightarrow> c_int \<Rightarrow> addr \<Rightarrow> addr \<times> state" where
  "take_block s sz current =
     (let m1 = set_is_free (mem s) current 0;
          m2 = (if scast sz + sizeof_Block + 1 < size_B (m1 current)
                then
                  let new_block = current + sizeof_Block + scast sz;
                      m3 = set_size m1 new_block (size_B (m1 current) - sizeof_Block - scast sz);
                      m4 = set_is_free m3 new_block 1;
                      m5 = set_next m4 new_block (next_B (m4 current));
                      m6 = set_next m5 current new_block
                  in set_size m6 current (scast sz)
                else m1)
      in (current + sizeof_Block, s\<lparr>mem := m2\<rparr>))"

text \<open>Lines 113 to 129, after the loop: a new block is requested and linked after \<open>previous\<close>.\<close>

definition extend_and_append :: "state \<Rightarrow> c_int \<Rightarrow> addr \<Rightarrow> addr \<Rightarrow> addr \<times> state" where
  "extend_and_append s sz total_size previous =
     (let (newblock, s1) = request_memory s total_size
      in if newblock = NULL then (NULL, s1)
         else
           let m1 = set_size (mem s1) newblock (scast sz);
               m2 = set_is_free m1 newblock 0;
               m3 = set_next m2 newblock NULL;
               m4 = (if previous \<noteq> NULL then set_next m3 previous newblock else m3)
           in (newblock + sizeof_Block, s1\<lparr>mem := m4\<rparr>))"

text \<open>Line 78, the test a block must pass to be handed out.\<close>

definition qualifies :: "Block \<Rightarrow> c_int \<Rightarrow> bool" where
  "qualifies b sz = (is_free b = 1 \<and> scast sz < size_B b)"

text \<open>
  Lines 75 to 129: the \<^verbatim>\<open>while (current != NULL)\<close> loop and the code after it. The loop
  follows \<^verbatim>\<open>next\<close> pointers through the store and need not end on a cyclic chain, so
  the result is an option and \<open>None\<close> is the loop that does not return.
\<close>

partial_function (option) search_loop ::
  "state \<Rightarrow> c_int \<Rightarrow> addr \<Rightarrow> addr \<Rightarrow> addr \<Rightarrow> (addr \<times> state) option" where
  [code]: "search_loop s sz total_size current previous =
     (if current \<noteq> NULL
      then if qualifies (mem s current) sz
           then Some (take_block s sz current)
           else search_loop s sz total_size (next_B (mem s current)) current
      else Some (extend_and_append s sz total_size previous))"

text \<open>\<^verbatim>\<open>void *my_malloc(int size)\<close>\<close>

definition my_malloc :: "state \<Rightarrow> c_int \<Rightarrow> (addr \<times> state) option" where
  "my_malloc s sz =
     (if sint sz < 0 then Some (NULL, s)
      else
        let total_size = scast sz + sizeof_Block
        in case (if free_list s = NULL then empty_catalog_path s sz total_size else Inr s) of
             Inl r \<Rightarrow> Some r
           | Inr s' \<Rightarrow> search_loop s' sz total_size (free_list s') NULL)"

text \<open>A sequence of calls, each on the state the previous one left.\<close>

fun run :: "state \<Rightarrow> c_int list \<Rightarrow> state option" where
  "run s [] = Some s"
| "run s (sz # szs) = (case my_malloc s sz of None \<Rightarrow> None | Some (p, s') \<Rightarrow> run s' szs)"

section \<open>The catalog as a list of addresses\<close>

text \<open>
  \<open>catalog m p bs\<close>: following \<^verbatim>\<open>next\<close> from \<open>p\<close> in the store \<open>m\<close> visits exactly the
  blocks \<open>bs\<close>, in this order, and then reaches the null pointer.
\<close>

fun catalog :: "(addr \<Rightarrow> Block) \<Rightarrow> addr \<Rightarrow> addr list \<Rightarrow> bool" where
  "catalog m p [] = (p = NULL)"
| "catalog m p (b # bs) = (p = b \<and> b \<noteq> NULL \<and> catalog m (next_B (m b)) bs)"

text \<open>The heap extender grants a request when \<^verbatim>\<open>sbrk\<close> does not answer \<^verbatim>\<open>(void *)-1\<close>.\<close>

definition extender_grants :: "state \<Rightarrow> addr \<Rightarrow> bool" where
  "extender_grants s n = (fst (sbrk s n) \<noteq> - 1)"

text \<open>
  A well-formed heap above the address \<open>base\<close>, the break before the first request:
  the catalog is the chain \<open>bs\<close>, the break is not the null pointer, every block of
  the catalog lies with its header and its payload between \<open>base\<close> and the break, and
  two different blocks do not overlap.
\<close>

definition well_formed :: "addr \<Rightarrow> state \<Rightarrow> addr list \<Rightarrow> bool" where
  "well_formed base s bs \<longleftrightarrow>
     catalog (mem s) (free_list s) bs \<and> brk s \<noteq> NULL \<and> base \<le> brk s \<and>
     (\<forall>b\<in>set bs.
        base \<le> b \<and> uint b + uint sizeof_Block + uint (size_B (mem s b)) \<le> uint (brk s)) \<and>
     (\<forall>a\<in>set bs. \<forall>b\<in>set bs. a \<noteq> b \<longrightarrow>
        uint a + uint sizeof_Block + uint (size_B (mem s a)) \<le> uint b \<or>
        uint b + uint sizeof_Block + uint (size_B (mem s b)) \<le> uint a)"

section \<open>Example states\<close>

definition blank :: Block where
  "blank = \<lparr>size_B = 0, next_B = NULL, is_free = 0\<rparr>"

text \<open>The state at program start: the static initialiser of \<open>free_list\<close>, nothing allocated.\<close>

definition fresh_heap :: state where
  "fresh_heap =
     \<lparr>free_list = NULL, mem = (\<lambda>_. blank), brk = 4096, brk_limit = 8192, sbrk_calls = []\<rparr>"

text \<open>The same state with no memory left to grant.\<close>

definition exhausted_heap :: state where
  "exhausted_heap =
     \<lparr>free_list = NULL, mem = (\<lambda>_. blank), brk = 4096, brk_limit = 4096, sbrk_calls = []\<rparr>"

text \<open>
  A catalog of three blocks, as a deallocator would leave it: an allocated block of 16
  bytes at 4096, a free block of 16 bytes at 4136 and a free block of 200 bytes at 4176.
\<close>

definition example_mem :: "addr \<Rightarrow> Block" where
  "example_mem = (\<lambda>_. blank)
     (4096 := \<lparr>size_B = 16, next_B = 4136, is_free = 0\<rparr>,
      4136 := \<lparr>size_B = 16, next_B = 4176, is_free = 1\<rparr>,
      4176 := \<lparr>size_B = 200, next_B = NULL, is_free = 1\<rparr>)"

definition example_heap :: state where
  "example_heap =
     \<lparr>free_list = 4096, mem = example_mem, brk = 4400, brk_limit = 8192, sbrk_calls = []\<rparr>"

text \<open>The states after one and after two calls \<^verbatim>\<open>my_malloc(16)\<close> at program start.\<close>

definition after_first :: state where
  "after_first = fresh_heap
     \<lparr>mem := (\<lambda>_. blank)(4096 := \<lparr>size_B = 16, next_B = NULL, is_free = 0\<rparr>),
      brk := 4136, sbrk_calls := [40]\<rparr>"

definition after_second :: state where
  "after_second = fresh_heap
     \<lparr>mem := (\<lambda>_. blank)(4096 := \<lparr>size_B = 16, next_B = NULL, is_free = 0\<rparr>,
                          4136 := \<lparr>size_B = 16, next_B = NULL, is_free = 0\<rparr>),
      brk := 4176, sbrk_calls := [40, 40]\<rparr>"

section \<open>Arithmetic of sizes\<close>

lemma sint_c_int_less: "sint (sz :: c_int) < 2147483648"
  using sint_less [of sz] by simp

lemma uint_scast_nonneg:
  assumes "0 \<le> sint (sz :: c_int)"
  shows "uint (scast sz :: addr) = sint sz"
proof -
  have "sint sz < 2 ^ 64"
    using sint_c_int_less [of sz] by simp
  with assms have "take_bit 64 (sint sz) = sint sz"
    by (simp only: take_bit_int_eq_self)
  moreover have "uint (scast sz :: addr) = take_bit 64 (sint sz)"
    unfolding scast_eq uint_word_of_int_eq by simp
  ultimately show ?thesis
    by (simp only:)
qed

lemma uint_sizeof_Block: "uint sizeof_Block = 24"
  by (simp add: sizeof_Block_def)

lemma uint_total_size:
  assumes "0 \<le> sint (sz :: c_int)"
  shows "uint (scast sz + sizeof_Block :: addr) = sint sz + 24"
proof -
  have "uint (scast sz :: addr) + uint sizeof_Block < 2 ^ LENGTH(64)"
    using assms sint_c_int_less [of sz] by (simp add: uint_scast_nonneg uint_sizeof_Block)
  then have "uint (scast sz + sizeof_Block :: addr) = uint (scast sz :: addr) + uint sizeof_Block"
    by (rule iffD1 [OF uint_add_lem])
  then show ?thesis
    using assms by (simp add: uint_scast_nonneg uint_sizeof_Block)
qed

lemma uint_split_threshold:
  assumes "0 \<le> sint (sz :: c_int)"
  shows "uint (scast sz + sizeof_Block + 1 :: addr) = sint sz + 25"
proof -
  have "uint (scast sz + sizeof_Block :: addr) + uint (1 :: addr) < 2 ^ LENGTH(64)"
    using assms sint_c_int_less [of sz] by (simp add: uint_total_size)
  then have "uint (scast sz + sizeof_Block + 1 :: addr) =
      uint (scast sz + sizeof_Block :: addr) + uint (1 :: addr)"
    by (rule iffD1 [OF uint_add_lem])
  then show ?thesis
    using assms by (simp add: uint_total_size)
qed

lemma sint_eq_uint_small:
  assumes "uint (w :: addr) < 2 ^ 63"
  shows "sint w = uint w"
proof -
  have "- (2 ^ 63) \<le> uint w"
    by (rule order_trans [of _ 0]) simp_all
  then have "signed_take_bit 63 (uint w) = uint w"
    using assms by (rule signed_take_bit_int_eq_self)
  moreover have "sint w = signed_take_bit 63 (uint w)"
    by (simp add: sint_uint)
  ultimately show ?thesis
    by (simp only:)
qed

lemma sint_total_size:
  assumes "0 \<le> sint (sz :: c_int)"
  shows "sint (scast sz + sizeof_Block :: addr) = sint sz + 24"
proof -
  have "uint (scast sz + sizeof_Block :: addr) < 2 ^ 63"
    using assms sint_c_int_less [of sz] by (simp add: uint_total_size)
  then show ?thesis
    using assms by (simp add: sint_eq_uint_small uint_total_size)
qed

section \<open>The catalog head\<close>

lemma free_list_request_memory: "free_list (snd (request_memory s n)) = free_list s"
  by (simp add: request_memory_def sbrk_def Let_def)

lemma free_list_take_block: "free_list (snd (take_block s sz c)) = free_list s"
  by (simp add: take_block_def Let_def)

lemma free_list_extend_and_append: "free_list (snd (extend_and_append s sz t prev)) = free_list s"
  using free_list_request_memory [of s t]
  by (cases "request_memory s t") (simp add: extend_and_append_def Let_def)

lemma free_list_search_loop:
  assumes "search_loop s sz t cur prev = Some r"
  shows "free_list (snd r) = free_list s"
proof (rule search_loop.raw_induct
    [where P = "\<lambda>s _ _ _ _ r. free_list (snd r) = free_list s", OF _ assms])
  fix f s sz t cur prev r
  assume IH: "\<And>s sz t cur prev r. f s sz t cur prev = Some r \<Longrightarrow> free_list (snd r) = free_list s"
    and body: "(if cur \<noteq> NULL
      then if qualifies (mem s cur) sz
           then Some (take_block s sz cur)
           else f s sz t (next_B (mem s cur)) cur
      else Some (extend_and_append s sz t prev)) = Some r"
  show "free_list (snd r) = free_list s"
  proof (cases "cur = NULL")
    case True
    with body show ?thesis by (auto simp: free_list_extend_and_append)
  next
    case False
    with body IH show ?thesis
      by (cases "qualifies (mem s cur) sz") (auto simp: free_list_take_block)
  qed
qed

lemma my_malloc_negative: "sint sz < 0 \<Longrightarrow> my_malloc s sz = Some (NULL, s)"
  by (simp add: my_malloc_def)

lemma my_malloc_empty:
  "0 \<le> sint sz \<Longrightarrow> free_list s = NULL \<Longrightarrow>
   \<exists>p s'. empty_catalog_path s sz (scast sz + sizeof_Block) = Inl (p, s') \<and>
          my_malloc s sz = Some (p, s') \<and> free_list s' = NULL"
  using free_list_request_memory [of s "scast sz + sizeof_Block"]
  by (cases "request_memory s (scast sz + sizeof_Block)")
     (simp add: my_malloc_def empty_catalog_path_def Let_def)

lemma my_malloc_free_list:
  assumes "my_malloc s sz = Some (p, s')"
  shows "free_list s' = free_list s"
proof (cases "sint sz < 0")
  case True
  with assms show ?thesis by (simp add: my_malloc_def)
next
  case neg: False
  show ?thesis
  proof (cases "free_list s = NULL")
    case True
    with neg my_malloc_empty [of sz s] assms show ?thesis by auto
  next
    case False
    with neg assms have "search_loop s sz (scast sz + sizeof_Block) (free_list s) NULL = Some (p, s')"
      by (simp add: my_malloc_def)
    from free_list_search_loop [OF this] show ?thesis by simp
  qed
qed

lemma run_keeps_empty:
  "free_list s = NULL \<Longrightarrow> \<exists>s'. run s szs = Some s' \<and> free_list s' = NULL"
proof (induction szs arbitrary: s)
  case Nil
  then show ?case by simp
next
  case (Cons sz szs)
  show ?case
  proof (cases "sint sz < 0")
    case True
    with Cons show ?thesis by (simp add: my_malloc_negative)
  next
    case False
    with my_malloc_empty [of sz s] Cons.prems obtain p s1 where
      "my_malloc s sz = Some (p, s1)" "free_list s1 = NULL" by auto
    with Cons.IH [of s1] show ?thesis by simp
  qed
qed

section \<open>Chains in the store\<close>

lemma catalog_functional: "catalog m p xs \<Longrightarrow> catalog m p ys \<Longrightarrow> xs = ys"
proof (induction xs arbitrary: p ys)
  case Nil
  then show ?case by (cases ys) auto
next
  case (Cons x xs)
  then show ?case by (cases ys) auto
qed

lemma catalog_suffix: "catalog m p (xs @ ys) \<Longrightarrow> \<exists>q. catalog m q ys"
  by (induction xs arbitrary: p) auto

lemma catalog_distinct: "catalog m p bs \<Longrightarrow> distinct bs"
proof (induction bs arbitrary: p)
  case Nil
  then show ?case by simp
next
  case (Cons b bs)
  then have tail: "catalog m (next_B (m b)) bs" and "distinct bs"
    by auto
  have "b \<notin> set bs"
  proof
    assume "b \<in> set bs"
    then obtain xs ys where bs: "bs = xs @ b # ys"
      by (auto dest: split_list)
    with tail catalog_suffix [of m "next_B (m b)" xs "b # ys"]
    have "catalog m (next_B (m b)) ys" by auto
    with tail have "bs = ys" by (rule catalog_functional)
    with bs show False by simp
  qed
  with \<open>distinct bs\<close> show ?case by simp
qed

lemma catalog_upd_other: "a \<notin> set bs \<Longrightarrow> catalog (m(a := x)) p bs = catalog m p bs"
  by (induction bs arbitrary: p) auto

lemma catalog_snoc:
  assumes "catalog m p bs" "bs \<noteq> []" "nb \<notin> set bs" "nb \<noteq> NULL" "next_B (m nb) = NULL"
  shows "catalog (m(last bs := (m (last bs))\<lparr>next_B := nb\<rparr>)) p (bs @ [nb])"
  using assms
proof (induction bs arbitrary: p)
  case Nil
  then show ?case by simp
next
  case (Cons b bs)
  show ?case
  proof (cases "bs = []")
    case True
    with Cons.prems show ?thesis by auto
  next
    case False
    from Cons.prems(1) have "distinct (b # bs)" by (rule catalog_distinct)
    with False have "b \<noteq> last bs" by auto
    with Cons False show ?thesis by auto
  qed
qed

lemma catalog_nonnull: "catalog m p bs \<Longrightarrow> NULL \<notin> set bs"
  by (induction bs arbitrary: p) auto

lemma catalog_head_nonnull: "catalog m p bs \<Longrightarrow> bs \<noteq> [] \<Longrightarrow> p \<noteq> NULL"
  by (cases bs) auto

section \<open>What the heap extender answers\<close>

lemma uint_minus_1_addr: "uint (- 1 :: addr) = 18446744073709551615"
  by (simp add: unsigned_minus_1_eq_mask mask_eq_exp_minus_1)

lemma request_memory_total:
  assumes "0 \<le> sint (sz :: c_int)"
  shows "request_memory s (scast sz + sizeof_Block) =
    (if uint (brk s) + sint sz + 24 \<le> uint (brk_limit s)
     then (brk s, s\<lparr>sbrk_calls := sbrk_calls s @ [scast sz + sizeof_Block],
                     brk := brk s + (scast sz + sizeof_Block)\<rparr>)
     else (NULL, s\<lparr>sbrk_calls := sbrk_calls s @ [scast sz + sizeof_Block]\<rparr>))"
proof (cases "uint (brk s) + sint sz + 24 \<le> uint (brk_limit s)")
  case True
  have "uint (brk_limit s) < 2 ^ 64"
    using uint_lt2p [of "brk_limit s"] by simp
  with True assms have "uint (brk s) < 2 ^ 64 - 1"
    by simp
  then have "brk s \<noteq> - 1"
    by (auto simp: uint_minus_1_addr)
  with True assms show ?thesis
    by (simp add: request_memory_def sbrk_def Let_def sint_total_size)
next
  case False
  with assms show ?thesis
    by (simp add: request_memory_def sbrk_def Let_def sint_total_size)
qed

lemma extender_grants_iff:
  assumes "0 \<le> sint (sz :: c_int)"
  shows "extender_grants s (scast sz + sizeof_Block) \<longleftrightarrow>
    uint (brk s) + sint sz + 24 \<le> uint (brk_limit s)"
proof -
  have "uint (brk_limit s) < 2 ^ 64"
    using uint_lt2p [of "brk_limit s"] by simp
  then have "brk s \<noteq> - 1" if "uint (brk s) + sint sz + 24 \<le> uint (brk_limit s)"
    using that assms by (auto simp: uint_minus_1_addr)
  with assms show ?thesis
    by (auto simp: extender_grants_def sbrk_def Let_def sint_total_size)
qed

lemma uint_new_break:
  assumes "0 \<le> sint (sz :: c_int)" "uint (brk s) + sint sz + 24 \<le> uint (brk_limit s)"
  shows "uint (brk s + (scast sz + sizeof_Block)) = uint (brk s) + sint sz + 24"
proof -
  have "uint (brk_limit s) < 2 ^ LENGTH(64)"
    by (rule uint_lt2p)
  with assms have "uint (brk s) + uint (scast sz + sizeof_Block :: addr) < 2 ^ LENGTH(64)"
    by (simp add: uint_total_size)
  then have "uint (brk s + (scast sz + sizeof_Block)) = uint (brk s) + uint (scast sz + sizeof_Block :: addr)"
    by (rule iffD1 [OF uint_add_lem])
  with assms show ?thesis by (simp add: uint_total_size)
qed

section \<open>What each path of the function computes\<close>

lemma Block_updates:
  "r\<lparr>size_B := a, next_B := b, is_free := c\<rparr> = \<lparr>size_B = a, next_B = b, is_free = c\<rparr>"
  "r\<lparr>size_B := a, is_free := c, next_B := b\<rparr> = \<lparr>size_B = a, next_B = b, is_free = c\<rparr>"
  "r\<lparr>is_free := c, next_B := b, size_B := a\<rparr> = \<lparr>size_B = a, next_B = b, is_free = c\<rparr>"
  by (cases r; simp)+

lemma search_loop_skip:
  "catalog (mem s) cur (pre @ rest) \<Longrightarrow> \<forall>b\<in>set pre. \<not> qualifies (mem s b) sz \<Longrightarrow>
   \<exists>nxt. catalog (mem s) nxt rest \<and>
      search_loop s sz t cur prev = search_loop s sz t nxt (last (prev # pre))"
proof (induction pre arbitrary: cur prev)
  case Nil
  then show ?case by auto
next
  case (Cons b pre)
  from Cons.prems have cur: "cur = b" "b \<noteq> NULL"
    and rest: "catalog (mem s) (next_B (mem s b)) (pre @ rest)"
    and nq: "\<not> qualifies (mem s b) sz"
    and nqs: "\<forall>b\<in>set pre. \<not> qualifies (mem s b) sz"
    by simp_all
  from Cons.IH [OF rest nqs, of b] obtain nxt where
    nxt: "catalog (mem s) nxt rest"
    "search_loop s sz t (next_B (mem s b)) b = search_loop s sz t nxt (last (b # pre))"
    by blast
  have "search_loop s sz t cur prev = search_loop s sz t (next_B (mem s b)) b"
    using cur nq by (subst search_loop.simps) simp
  with nxt show ?case by auto
qed

lemma my_malloc_hit:
  assumes "0 \<le> sint sz" "catalog (mem s) (free_list s) (pre @ c # post)"
    "\<forall>b\<in>set pre. \<not> qualifies (mem s b) sz" "qualifies (mem s c) sz"
  shows "my_malloc s sz = Some (take_block s sz c)"
proof -
  from assms(2) have head: "free_list s \<noteq> NULL"
    by (rule catalog_head_nonnull) simp
  from search_loop_skip [OF assms(2,3), of "scast sz + sizeof_Block" NULL] obtain nxt where
    nxt: "catalog (mem s) nxt (c # post)"
    "search_loop s sz (scast sz + sizeof_Block) (free_list s) NULL =
     search_loop s sz (scast sz + sizeof_Block) nxt (last (NULL # pre))"
    by blast
  from nxt(1) have "nxt = c" "c \<noteq> NULL" by simp_all
  with assms(4) have "search_loop s sz (scast sz + sizeof_Block) nxt (last (NULL # pre)) =
      Some (take_block s sz c)"
    by (subst search_loop.simps) simp
  with nxt(2) head assms(1) show ?thesis
    by (simp add: my_malloc_def)
qed

lemma my_malloc_miss:
  assumes "0 \<le> sint sz" "catalog (mem s) (free_list s) bs" "bs \<noteq> []"
    "\<forall>b\<in>set bs. \<not> qualifies (mem s b) sz"
  shows "my_malloc s sz = Some (extend_and_append s sz (scast sz + sizeof_Block) (last bs))"
proof -
  from assms(2,3) have head: "free_list s \<noteq> NULL"
    by (rule catalog_head_nonnull)
  from assms(2) have "catalog (mem s) (free_list s) (bs @ [])" by simp
  from search_loop_skip [OF this assms(4), of "scast sz + sizeof_Block" NULL] obtain nxt where
    nxt: "catalog (mem s) nxt []"
    "search_loop s sz (scast sz + sizeof_Block) (free_list s) NULL =
     search_loop s sz (scast sz + sizeof_Block) nxt (last (NULL # bs))"
    by blast
  from nxt(1) have "nxt = NULL" by simp
  then have "search_loop s sz (scast sz + sizeof_Block) nxt (last (NULL # bs)) =
      Some (extend_and_append s sz (scast sz + sizeof_Block) (last (NULL # bs)))"
    by (subst search_loop.simps) simp
  with nxt(2) head assms(1,3) show ?thesis
    by (simp add: my_malloc_def)
qed

lemma my_malloc_empty_refused:
  assumes "0 \<le> sint sz" "free_list s = NULL"
    "\<not> uint (brk s) + sint sz + 24 \<le> uint (brk_limit s)"
  shows "my_malloc s sz = Some (NULL, s\<lparr>sbrk_calls := sbrk_calls s @ [scast sz + sizeof_Block]\<rparr>)"
  using assms by (simp add: my_malloc_def empty_catalog_path_def request_memory_total)

lemma my_malloc_empty_granted:
  assumes "0 \<le> sint sz" "free_list s = NULL" "brk s \<noteq> NULL"
    "uint (brk s) + sint sz + 24 \<le> uint (brk_limit s)"
  shows "my_malloc s sz = Some (brk s + sizeof_Block,
    s\<lparr>sbrk_calls := sbrk_calls s @ [scast sz + sizeof_Block],
      brk := brk s + (scast sz + sizeof_Block),
      mem := (mem s)(brk s := \<lparr>size_B = scast sz, next_B = NULL, is_free = 0\<rparr>),
      free_list := NULL\<rparr>)"
  using assms
  by (simp add: my_malloc_def empty_catalog_path_def request_memory_total
      set_size_def set_next_def set_is_free_def Let_def Block_updates)

lemma extend_refused:
  assumes "0 \<le> sint sz" "\<not> uint (brk s) + sint sz + 24 \<le> uint (brk_limit s)"
  shows "extend_and_append s sz (scast sz + sizeof_Block) prev =
    (NULL, s\<lparr>sbrk_calls := sbrk_calls s @ [scast sz + sizeof_Block]\<rparr>)"
  using assms by (simp add: extend_and_append_def request_memory_total)

lemma extend_granted:
  assumes "0 \<le> sint sz" "uint (brk s) + sint sz + 24 \<le> uint (brk_limit s)"
    "brk s \<noteq> NULL" "prev \<noteq> NULL" "prev \<noteq> brk s"
  shows "extend_and_append s sz (scast sz + sizeof_Block) prev =
    (brk s + sizeof_Block,
     s\<lparr>sbrk_calls := sbrk_calls s @ [scast sz + sizeof_Block],
       brk := brk s + (scast sz + sizeof_Block),
       mem := (mem s)(brk s := \<lparr>size_B = scast sz, next_B = NULL, is_free = 0\<rparr>,
                      prev := (mem s prev)\<lparr>next_B := brk s\<rparr>)\<rparr>)"
  using assms
  by (simp add: extend_and_append_def request_memory_total
      set_size_def set_next_def set_is_free_def Block_updates)

lemma split_offset_nonzero:
  assumes "0 \<le> sint (sz :: c_int)"
  shows "c + sizeof_Block + scast sz \<noteq> (c :: addr)"
proof
  assume "c + sizeof_Block + scast sz = c"
  then have "scast sz + sizeof_Block = (0 :: addr)"
    by (simp add: add.commute add.left_commute)
  then have "uint (scast sz + sizeof_Block :: addr) = 0"
    by simp
  with assms show False
    by (simp add: uint_total_size)
qed

lemma split_test:
  assumes "0 \<le> sint (sz :: c_int)"
  shows "(scast sz + sizeof_Block + 1 < (v :: addr)) \<longleftrightarrow> sint sz + 25 < uint v"
  using assms by (simp add: word_less_def uint_split_threshold)

lemma take_block_whole:
  assumes "0 \<le> sint sz" "\<not> sint sz + 25 < uint (size_B (mem s c))"
  shows "take_block s sz c = (c + sizeof_Block, s\<lparr>mem := (mem s)(c := (mem s c)\<lparr>is_free := 0\<rparr>)\<rparr>)"
  using assms by (simp add: take_block_def set_is_free_def split_test)

lemma take_block_split:
  assumes "0 \<le> sint sz" "sint sz + 25 < uint (size_B (mem s c))"
  shows "take_block s sz c = (c + sizeof_Block,
    s\<lparr>mem := (mem s)
      (c + sizeof_Block + scast sz :=
         \<lparr>size_B = size_B (mem s c) - sizeof_Block - scast sz,
          next_B = next_B (mem s c), is_free = 1\<rparr>,
       c := \<lparr>size_B = scast sz, next_B = c + sizeof_Block + scast sz, is_free = 0\<rparr>)\<rparr>)"
  using assms split_offset_nonzero [OF assms(1), of c]
  by (simp add: take_block_def set_is_free_def set_size_def set_next_def split_test Let_def
      fun_upd_twist Block_updates)

section \<open>Well-formed heaps\<close>

lemma well_formed_example_heap: "well_formed 4096 example_heap [4096, 4136, 4176]"
  by (simp add: well_formed_def example_heap_def example_mem_def sizeof_Block_def)

lemma well_formed_below_break:
  assumes "well_formed base s bs" "b \<in> set bs"
  shows "b \<noteq> brk s"
proof -
  from assms have "uint b + 24 + uint (size_B (mem s b)) \<le> uint (brk s)"
    by (simp add: well_formed_def uint_sizeof_Block)
  then have "uint b < uint (brk s)"
    using uint_ge_0 [of "size_B (mem s b)"] by linarith
  then show ?thesis by auto
qed


lemma well_formed_block:
  assumes "well_formed base s bs" "b \<in> set bs"
  shows "base \<le> b" "uint b + 24 + uint (size_B (mem s b)) \<le> uint (brk s)" "b \<noteq> NULL"
  using assms catalog_nonnull [of "mem s" "free_list s" bs]
  by (auto simp: well_formed_def uint_sizeof_Block)

lemma uint_payload:
  assumes "uint (b :: addr) + 24 + n \<le> uint (lim :: addr)" "0 \<le> n"
  shows "uint (b + sizeof_Block) = uint b + 24"
proof -
  have "uint lim < 2 ^ LENGTH(64)"
    by (rule uint_lt2p)
  with assms have "uint b + uint sizeof_Block < 2 ^ LENGTH(64)"
    by (simp add: uint_sizeof_Block)
  then have "uint (b + sizeof_Block) = uint b + uint sizeof_Block"
    by (rule iffD1 [OF uint_add_lem])
  then show ?thesis
    by (simp add: uint_sizeof_Block)
qed

lemma qualifies_size:
  assumes "0 \<le> sint sz" "qualifies blk sz"
  shows "sint sz < uint (size_B blk)" "is_free blk = 1"
  using assms by (simp_all add: qualifies_def word_less_def uint_scast_nonneg)

lemma uint_remainder:
  assumes "0 \<le> sint (sz :: c_int)" "uint (c :: addr) + 24 + uint (old :: addr) \<le> uint (lim :: addr)"
    "sint sz + 25 < uint old"
  shows "uint (c + sizeof_Block + scast sz) = uint c + 24 + sint sz"
    and "uint (old - sizeof_Block - scast sz) = uint old - 24 - sint sz"
proof -
  have lim: "uint lim < 2 ^ LENGTH(64)"
    by (rule uint_lt2p)
  have sum: "c + sizeof_Block + scast sz = c + (scast sz + sizeof_Block)"
    by simp
  have "uint c + uint (scast sz + sizeof_Block :: addr) < 2 ^ LENGTH(64)"
    using assms lim by (simp add: uint_total_size)
  then have "uint (c + (scast sz + sizeof_Block)) = uint c + uint (scast sz + sizeof_Block :: addr)"
    by (rule iffD1 [OF uint_add_lem])
  then show "uint (c + sizeof_Block + scast sz) = uint c + 24 + sint sz"
    unfolding sum using assms(1) by (simp add: uint_total_size)
  have diff: "old - sizeof_Block - scast sz = old - (scast sz + sizeof_Block)"
    by simp
  have "uint (scast sz + sizeof_Block :: addr) \<le> uint old"
    using assms by (simp add: uint_total_size)
  then have "uint (old - (scast sz + sizeof_Block)) = uint old - uint (scast sz + sizeof_Block :: addr)"
    by (rule iffD1 [OF uint_sub_lem])
  then show "uint (old - sizeof_Block - scast sz) = uint old - 24 - sint sz"
    unfolding diff using assms(1) by (simp add: uint_total_size)
qed

lemma split_block_outside:
  assumes "well_formed base s bs" "c \<in> set bs" "0 \<le> sint (sz :: c_int)"
    "sint sz + 25 < uint (size_B (mem s c))"
  shows "c + sizeof_Block + scast sz \<notin> set bs"
proof
  let ?nb = "c + sizeof_Block + scast sz"
  assume inside: "?nb \<in> set bs"
  from assms(1,2) have c: "uint c + 24 + uint (size_B (mem s c)) \<le> uint (brk s)"
    by (rule well_formed_block)
  from assms(3) c assms(4) have nb: "uint ?nb = uint c + 24 + sint sz"
    by (rule uint_remainder(1))
  from assms(3) have "?nb \<noteq> c"
    by (rule split_offset_nonzero)
  with assms(1,2) inside have
    "uint ?nb + 24 + uint (size_B (mem s ?nb)) \<le> uint c \<or>
     uint c + 24 + uint (size_B (mem s c)) \<le> uint ?nb"
    unfolding well_formed_def uint_sizeof_Block by blast
  with nb assms(3,4) uint_ge_0 [of "size_B (mem s ?nb)"] show False
    by linarith
qed

lemma take_block_props:
  assumes "well_formed base s bs" "c \<in> set bs" "0 \<le> sint sz" "qualifies (mem s c) sz"
  shows "\<exists>s'. take_block s sz c = (c + sizeof_Block, s') \<and>
    uint (c + sizeof_Block) = uint c + 24 \<and>
    is_free (mem s' c) = 0 \<and> sint sz \<le> uint (size_B (mem s' c)) \<and>
    uint (size_B (mem s' c)) \<le> uint (size_B (mem s c)) \<and>
    brk s' = brk s \<and> free_list s' = free_list s \<and> sbrk_calls s' = sbrk_calls s \<and>
    (\<forall>a\<in>set bs. a \<noteq> c \<longrightarrow> mem s' a = mem s a)"
proof -
  from assms(1,2) have c: "uint c + 24 + uint (size_B (mem s c)) \<le> uint (brk s)"
    by (rule well_formed_block)
  then have payload: "uint (c + sizeof_Block) = uint c + 24"
    by (rule uint_payload) simp
  from assms(3,4) have bigger: "sint sz < uint (size_B (mem s c))"
    by (rule qualifies_size)
  show ?thesis
  proof (cases "sint sz + 25 < uint (size_B (mem s c))")
    case True
    from assms(1,2,3) True have "c + sizeof_Block + scast sz \<notin> set bs"
      by (rule split_block_outside)
    then have "\<forall>a\<in>set bs. a \<noteq> c + sizeof_Block + scast sz"
      by blast
    with payload bigger assms(3) show ?thesis
      by (simp add: take_block_split [OF assms(3) True] uint_scast_nonneg)
  next
    case False
    with payload bigger assms(3) show ?thesis
      by (simp add: take_block_whole [OF assms(3) False])
  qed
qed

lemma my_malloc_refuses:
  assumes "0 \<le> sint sz" "catalog (mem s) (free_list s) bs"
    "\<forall>b\<in>set bs. \<not> qualifies (mem s b) sz"
    "\<not> uint (brk s) + sint sz + 24 \<le> uint (brk_limit s)"
  shows "my_malloc s sz = Some (NULL, s\<lparr>sbrk_calls := sbrk_calls s @ [scast sz + sizeof_Block]\<rparr>)"
proof (cases "bs = []")
  case True
  with assms(2) have "free_list s = NULL" by simp
  with assms(1,4) show ?thesis
    by (simp add: my_malloc_empty_refused)
next
  case False
  have "my_malloc s sz = Some (extend_and_append s sz (scast sz + sizeof_Block) (last bs))"
    by (rule my_malloc_miss [OF assms(1,2) False assms(3)])
  with assms(1,4) show ?thesis
    by (simp add: extend_refused)
qed

lemma my_malloc_extends:
  assumes "well_formed base s bs" "0 \<le> sint sz"
    "\<forall>b\<in>set bs. \<not> qualifies (mem s b) sz"
    "uint (brk s) + sint sz + 24 \<le> uint (brk_limit s)"
  shows "\<exists>s'. my_malloc s sz = Some (brk s + sizeof_Block, s') \<and>
    uint (brk s + sizeof_Block) = uint (brk s) + 24 \<and>
    mem s' (brk s) = \<lparr>size_B = scast sz, next_B = NULL, is_free = 0\<rparr> \<and>
    uint (brk s') = uint (brk s) + 24 + sint sz \<and>
    free_list s' = free_list s \<and>
    sbrk_calls s' = sbrk_calls s @ [scast sz + sizeof_Block] \<and>
    (\<forall>a. a \<noteq> brk s \<longrightarrow> size_B (mem s' a) = size_B (mem s a) \<and> is_free (mem s' a) = is_free (mem s a))"
proof -
  from assms(1) have chain: "catalog (mem s) (free_list s) bs" and brk: "brk s \<noteq> NULL"
    by (simp_all add: well_formed_def)
  from assms(2,4) have new_break:
    "uint (brk s + (scast sz + sizeof_Block)) = uint (brk s) + sint sz + 24"
    by (rule uint_new_break)
  from assms(2,4) have "uint (brk s) + 24 + sint sz \<le> uint (brk_limit s)"
    by simp
  then have payload: "uint (brk s + sizeof_Block) = uint (brk s) + 24"
    using assms(2) by (rule uint_payload)
  show ?thesis
  proof (cases "bs = []")
    case True
    with chain have "free_list s = NULL" by simp
    with new_break payload show ?thesis
      by (simp add: my_malloc_empty_granted [OF assms(2) _ brk assms(4)])
  next
    case False
    then have tail: "last bs \<in> set bs"
      by simp
    with chain catalog_nonnull [of "mem s" "free_list s" bs] have tail_nonnull: "last bs \<noteq> NULL"
      by auto
    from assms(1) tail have tail_old: "last bs \<noteq> brk s"
      by (rule well_formed_below_break)
    have "my_malloc s sz = Some (extend_and_append s sz (scast sz + sizeof_Block) (last bs))"
      by (rule my_malloc_miss [OF assms(2) chain False assms(3)])
    with new_break payload tail_old show ?thesis
      by (simp add: extend_granted [OF assms(2,4) brk tail_nonnull tail_old])
  qed
qed

lemma find_first:
  "find P bs = Some c \<Longrightarrow> \<exists>pre post. bs = pre @ c # post \<and> (\<forall>b\<in>set pre. \<not> P b) \<and> P c"
proof (induction bs)
  case Nil
  then show ?case by simp
next
  case (Cons x xs)
  show ?case
  proof (cases "P x")
    case True
    with Cons.prems have "x # xs = [] @ c # xs \<and> (\<forall>b\<in>set []. \<not> P b) \<and> P c"
      by simp
    then show ?thesis by blast
  next
    case False
    with Cons obtain pre post where "xs = pre @ c # post" "\<forall>b\<in>set pre. \<not> P b" "P c"
      by auto
    with False have "x # xs = (x # pre) @ c # post \<and> (\<forall>b\<in>set (x # pre). \<not> P b) \<and> P c"
      by simp
    then show ?thesis by blast
  qed
qed

lemma payload_nonnull:
  assumes "well_formed base s bs" "b \<in> set bs"
  shows "b + sizeof_Block \<noteq> NULL"
proof -
  from assms have "uint b + 24 + uint (size_B (mem s b)) \<le> uint (brk s)"
    by (rule well_formed_block)
  then have "uint (b + sizeof_Block) = uint b + 24"
    by (rule uint_payload) simp
  then have "0 < uint (b + sizeof_Block)"
    using uint_ge_0 [of b] by linarith
  then show ?thesis by auto
qed


lemma catalog_same_links:
  "\<forall>a\<in>set bs. next_B (m' a) = next_B (m a) \<Longrightarrow> catalog m' p bs = catalog m p bs"
  by (induction bs arbitrary: p) auto

lemma catalog_insert_after:
  assumes "catalog m p (pre @ c # post)" "nb \<notin> set (pre @ c # post)" "nb \<noteq> NULL"
    "next_B (m' c) = nb" "next_B (m' nb) = next_B (m c)"
    "\<forall>a. a \<noteq> c \<and> a \<noteq> nb \<longrightarrow> m' a = m a"
  shows "catalog m' p (pre @ c # nb # post)"
  using assms(1,2)
proof (induction pre arbitrary: p)
  case Nil
  then have c: "p = c" "c \<noteq> NULL" and post: "catalog m (next_B (m c)) post"
    and outside: "nb \<notin> set post" "nb \<noteq> c"
    by auto
  from Nil.prems(1) have "distinct ([] @ c # post)"
    by (rule catalog_distinct)
  then have "c \<notin> set post"
    by simp
  with outside assms(6) have "\<forall>a\<in>set post. next_B (m' a) = next_B (m a)"
    by auto
  then have "catalog m' (next_B (m c)) post = catalog m (next_B (m c)) post"
    by (rule catalog_same_links)
  with post c assms(3,4,5) show ?case
    by simp
next
  case (Cons x pre)
  from Cons.prems(1) have "distinct ((x # pre) @ c # post)"
    by (rule catalog_distinct)
  then have "x \<noteq> c"
    by auto
  moreover from Cons.prems(2) have "x \<noteq> nb"
    by auto
  ultimately have "m' x = m x"
    using assms(6) by simp
  with Cons show ?case
    by auto
qed


section \<open>The first two calls at program start\<close>

lemma first_call: "my_malloc fresh_heap 16 = Some (4120, after_first)"
  by (simp add: my_malloc_def empty_catalog_path_def request_memory_def sbrk_def
      set_size_def set_next_def set_is_free_def fresh_heap_def after_first_def
      sizeof_Block_def blank_def Block_updates Let_def)

lemma second_call: "my_malloc after_first 16 = Some (4160, after_second)"
  by (simp add: my_malloc_def empty_catalog_path_def request_memory_def sbrk_def
      set_size_def set_next_def set_is_free_def fresh_heap_def after_first_def after_second_def
      sizeof_Block_def blank_def Block_updates Let_def)

section \<open>Rejected requests\<close>

text \<open>
  Claim C8. For every requested size below 0, \<^verbatim>\<open>my_malloc\<close> fails: it returns the
  failure value of the function, the null pointer. This holds in particular for the
  size \<open>-1\<close>.
\<close>

theorem negative_size_fails:
  "(sint sz < 0 \<longrightarrow> map_option fst (my_malloc s sz) = Some NULL) \<and>
   map_option fst (my_malloc s (- 1)) = Some NULL"
  by (simp add: my_malloc_def)

theorem negative_size_fails_witness:
  "sint (- 5 :: c_int) < 0 \<and> map_option fst (my_malloc fresh_heap (- 5)) = Some NULL"
  using negative_size_fails [of "- 5" fresh_heap] by simp

text \<open>
  Claim C10. For every requested size below 0, \<^verbatim>\<open>my_malloc\<close> returns its failure value
  and leaves the whole state as it was: the catalog head, every block header, the
  program break, and the record of calls to \<^verbatim>\<open>sbrk\<close>, so the heap extender was not
  invoked.
\<close>

theorem negative_size_no_effect:
  assumes "sint sz < 0"
  shows "\<exists>s'. my_malloc s sz = Some (NULL, s') \<and> free_list s' = free_list s \<and>
    mem s' = mem s \<and> brk s' = brk s \<and> sbrk_calls s' = sbrk_calls s \<and> s' = s"
  using assms by (simp add: my_malloc_def)

theorem negative_size_no_effect_witness:
  "sint (- 1 :: c_int) < 0 \<and> my_malloc fresh_heap (- 1) = Some (NULL, fresh_heap)"
  using negative_size_no_effect [of "- 1" fresh_heap] by simp

section \<open>The catalog head is never set\<close>

text \<open>
  Claim C4, as stated, fails: not every call takes the empty-catalog path. A call with
  a negative size returns at the guard of lines 30 to 33, before the test of
  \<open>free_list\<close>: at program start \<^verbatim>\<open>my_malloc(-1)\<close> returns the null pointer, leaves
  the state as it was and makes no call to \<^verbatim>\<open>sbrk\<close>, whereas the body of
  \<^verbatim>\<open>if (free_list == NULL)\<close> would have called \<^verbatim>\<open>sbrk\<close> and returned a block.
\<close>

theorem negative_call_skips_empty_catalog_path:
  "my_malloc fresh_heap (- 1) = Some (NULL, fresh_heap) \<and>
   sbrk_calls (snd (the (my_malloc fresh_heap (- 1)))) = [] \<and>
   empty_catalog_path fresh_heap (- 1) (scast (- 1 :: c_int) + sizeof_Block) =
     Inl (4120, fresh_heap
       \<lparr>mem := (\<lambda>_. blank)(4096 := \<lparr>size_B = - 1, next_B = NULL, is_free = 0\<rparr>),
        brk := 4119, sbrk_calls := [23]\<rparr>) \<and>
   \<not> Inl (the (my_malloc fresh_heap (- 1))) =
     empty_catalog_path fresh_heap (- 1) (scast (- 1 :: c_int) + sizeof_Block)"
  by (simp add: my_malloc_def empty_catalog_path_def request_memory_def sbrk_def
      set_size_def set_next_def set_is_free_def fresh_heap_def
      sizeof_Block_def blank_def Block_updates Let_def)

text \<open>
  Claim C4, amended. The only assignment to \<open>free_list\<close> stores the null pointer, so no
  call changes the catalog head, whatever the state. Starting with an empty catalog,
  after any sequence of calls the head is still the null pointer. Every further call
  with a size that is not negative returns from inside the \<^verbatim>\<open>if (free_list == NULL)\<close>
  body (the heap-extender path); every further call with a negative size returns the
  null pointer at the guard before it and leaves the state, the record of calls to
  \<^verbatim>\<open>sbrk\<close> included, as it was. In both cases control does not reach the search loop.
\<close>

theorem catalog_head_stays_empty:
  assumes "free_list s = NULL"
  shows "(\<exists>s'. run s szs = Some s' \<and> free_list s' = NULL \<and>
      (\<forall>sz. 0 \<le> sint sz \<longrightarrow>
         (\<exists>r. empty_catalog_path s' sz (scast sz + sizeof_Block) = Inl r \<and>
              my_malloc s' sz = Some r)) \<and>
      (\<forall>sz. sint sz < 0 \<longrightarrow> my_malloc s' sz = Some (NULL, s'))) \<and>
    (\<forall>s0 sz p s1. my_malloc s0 sz = Some (p, s1) \<longrightarrow> free_list s1 = free_list s0)"
proof -
  from run_keeps_empty [OF assms, of szs] obtain s' where
    s': "run s szs = Some s'" "free_list s' = NULL" by blast
  have body: "\<exists>r. empty_catalog_path s' sz (scast sz + sizeof_Block) = Inl r \<and>
      my_malloc s' sz = Some r"
    if "0 \<le> sint sz" for sz
    using my_malloc_empty [OF that s'(2)] by blast
  have guard: "my_malloc s' sz = Some (NULL, s')" if "sint sz < 0" for sz
    using that by (rule my_malloc_negative)
  have head: "free_list s1 = free_list s0" if "my_malloc s0 sz = Some (p, s1)" for s0 sz p s1
    using that by (rule my_malloc_free_list)
  from s' body guard head show ?thesis
    by blast
qed

theorem catalog_head_stays_empty_witness:
  "free_list fresh_heap = NULL \<and> 0 \<le> sint (16 :: c_int) \<and> sint (- 1 :: c_int) < 0 \<and>
   (\<exists>s'. run fresh_heap [16, - 1, 16] = Some s' \<and> free_list s' = NULL \<and>
      (\<exists>r. empty_catalog_path s' 16 (scast (16 :: c_int) + sizeof_Block) = Inl r \<and>
           my_malloc s' 16 = Some r) \<and>
      my_malloc s' (- 1) = Some (NULL, s')) \<and>
   my_malloc fresh_heap 16 = Some (4120, after_first) \<and>
   free_list after_first = free_list fresh_heap"
proof -
  have empty: "free_list fresh_heap = NULL"
    by (simp add: fresh_heap_def)
  have nonneg: "0 \<le> sint (16 :: c_int)"
    by simp
  have neg: "sint (- 1 :: c_int) < 0"
    by simp
  from catalog_head_stays_empty [OF empty, of "[16, - 1, 16]"] nonneg neg empty first_call
  show ?thesis by blast
qed

section \<open>Failure of the heap extender\<close>

text \<open>
  Claim C7. The heap extender is invoked when no block of the catalog qualifies (an
  empty catalog included). Whenever it then fails, \<^verbatim>\<open>my_malloc\<close> returns the null
  pointer and has written nothing: the catalog head, every block header and every link
  are as before the call, and so is the break; only the call to \<^verbatim>\<open>sbrk\<close> is on record.
\<close>

theorem extender_failure_no_mutation:
  assumes "0 \<le> sint sz" "catalog (mem s) (free_list s) bs"
    "\<forall>b\<in>set bs. \<not> qualifies (mem s b) sz"
    "\<not> extender_grants s (scast sz + sizeof_Block)"
  shows "\<exists>s'. my_malloc s sz = Some (NULL, s') \<and> free_list s' = free_list s \<and>
    mem s' = mem s \<and> brk s' = brk s \<and>
    sbrk_calls s' = sbrk_calls s @ [scast sz + sizeof_Block]"
proof -
  from assms(1,4) have refused: "\<not> uint (brk s) + sint sz + 24 \<le> uint (brk_limit s)"
    by (simp add: extender_grants_iff)
  show ?thesis
  proof (cases "bs = []")
    case True
    with assms(2) have "free_list s = NULL" by simp
    with assms(1) refused show ?thesis
      by (simp add: my_malloc_empty_refused)
  next
    case False
    have "my_malloc s sz =
        Some (extend_and_append s sz (scast sz + sizeof_Block) (last bs))"
      by (rule my_malloc_miss [OF assms(1,2) False assms(3)])
    with assms(1) refused show ?thesis
      by (simp add: extend_refused)
  qed
qed

theorem extender_failure_no_mutation_witness:
  "0 \<le> sint (5000 :: c_int) \<and>
   catalog (mem example_heap) (free_list example_heap) [4096, 4136, 4176] \<and>
   \<not> qualifies (mem example_heap 4096) 5000 \<and> \<not> qualifies (mem example_heap 4136) 5000 \<and>
   \<not> qualifies (mem example_heap 4176) 5000 \<and>
   \<not> extender_grants example_heap (scast (5000 :: c_int) + sizeof_Block) \<and>
   (\<exists>s'. my_malloc example_heap 5000 = Some (NULL, s') \<and> free_list s' = 4096 \<and>
      mem s' = example_mem \<and> brk s' = 4400 \<and> sbrk_calls s' = [5024])"
proof -
  have nonneg: "0 \<le> sint (5000 :: c_int)"
    by simp
  have chain: "catalog (mem example_heap) (free_list example_heap) [4096, 4136, 4176]"
    by (simp add: example_heap_def example_mem_def)
  have none: "\<forall>b\<in>set [4096, 4136, 4176]. \<not> qualifies (mem example_heap b) 5000"
    by (simp add: example_heap_def example_mem_def qualifies_def)
  have refused: "\<not> extender_grants example_heap (scast (5000 :: c_int) + sizeof_Block)"
    by (simp add: extender_grants_def sbrk_def example_heap_def sizeof_Block_def)
  from extender_failure_no_mutation [OF nonneg chain none refused] nonneg chain none refused
  show ?thesis
    by (simp add: example_heap_def sizeof_Block_def)
qed

section \<open>Extending the heap behind a catalog\<close>

text \<open>
  Claim C6. When the catalog is not empty and no block of it qualifies, and the heap
  extender grants the request, \<^verbatim>\<open>my_malloc\<close> has asked \<^verbatim>\<open>sbrk\<close> for exactly the
  requested size plus the size of a header, the new block sits at the old break with
  the requested size, \<^verbatim>\<open>is_free = 0\<close> and a null \<^verbatim>\<open>next\<close>, the last block of the
  catalog now points to it, so the catalog is the old one followed by the new block,
  and the pointer returned is the first byte after the new header.
\<close>

theorem append_after_tail:
  assumes "well_formed base s bs" "bs \<noteq> []" "0 \<le> sint sz"
    "\<forall>b\<in>set bs. \<not> qualifies (mem s b) sz"
    "extender_grants s (scast sz + sizeof_Block)"
  shows "\<exists>s'. my_malloc s sz = Some (brk s + sizeof_Block, s') \<and>
    sbrk_calls s' = sbrk_calls s @ [scast sz + sizeof_Block] \<and>
    uint (scast sz + sizeof_Block :: addr) = sint sz + uint sizeof_Block \<and>
    mem s' = (mem s)(brk s := \<lparr>size_B = scast sz, next_B = NULL, is_free = 0\<rparr>,
                     last bs := (mem s (last bs))\<lparr>next_B := brk s\<rparr>) \<and>
    mem s' (brk s) = \<lparr>size_B = scast sz, next_B = NULL, is_free = 0\<rparr> \<and>
    next_B (mem s' (last bs)) = brk s \<and>
    free_list s' = free_list s \<and>
    catalog (mem s') (free_list s') (bs @ [brk s])"
proof -
  let ?t = "scast sz + sizeof_Block :: addr"
  let ?new = "\<lparr>size_B = scast sz, next_B = NULL, is_free = 0\<rparr>"
  let ?m1 = "(mem s)(brk s := ?new)"
  from assms(1) have chain: "catalog (mem s) (free_list s) bs" and brk: "brk s \<noteq> NULL"
    by (simp_all add: well_formed_def)
  from assms(2) have tail: "last bs \<in> set bs"
    by simp
  with chain catalog_nonnull [of "mem s" "free_list s" bs] have tail_nonnull: "last bs \<noteq> NULL"
    by auto
  from assms(1) tail have tail_old: "last bs \<noteq> brk s"
    by (rule well_formed_below_break)
  from assms(1) have fresh: "brk s \<notin> set bs"
    by (auto dest: well_formed_below_break)
  from assms(3,5) have fits: "uint (brk s) + sint sz + 24 \<le> uint (brk_limit s)"
    by (simp add: extender_grants_iff)
  have "my_malloc s sz = Some (extend_and_append s sz ?t (last bs))"
    by (rule my_malloc_miss [OF assms(3) chain assms(2,4)])
  then have result: "my_malloc s sz = Some (brk s + sizeof_Block,
      s\<lparr>sbrk_calls := sbrk_calls s @ [?t], brk := brk s + ?t,
        mem := ?m1(last bs := (mem s (last bs))\<lparr>next_B := brk s\<rparr>)\<rparr>)"
    by (simp add: extend_granted [OF assms(3) fits brk tail_nonnull tail_old])
  from chain fresh have "catalog ?m1 (free_list s) bs"
    by (simp add: catalog_upd_other)
  then have "catalog (?m1(last bs := (?m1 (last bs))\<lparr>next_B := brk s\<rparr>)) (free_list s) (bs @ [brk s])"
    using assms(2) fresh brk by (rule catalog_snoc) simp
  with tail_old have "catalog (?m1(last bs := (mem s (last bs))\<lparr>next_B := brk s\<rparr>))
      (free_list s) (bs @ [brk s])"
    by simp
  with result tail_old assms(3) show ?thesis
    by (simp add: uint_total_size uint_sizeof_Block)
qed

theorem append_after_tail_witness:
  "well_formed 4096 example_heap [4096, 4136, 4176] \<and> 0 \<le> sint (300 :: c_int) \<and>
   \<not> qualifies (mem example_heap 4096) 300 \<and> \<not> qualifies (mem example_heap 4136) 300 \<and>
   \<not> qualifies (mem example_heap 4176) 300 \<and>
   extender_grants example_heap (scast (300 :: c_int) + sizeof_Block) \<and>
   (\<exists>s'. my_malloc example_heap 300 = Some (4424, s') \<and> sbrk_calls s' = [324] \<and>
      mem s' 4400 = \<lparr>size_B = 300, next_B = NULL, is_free = 0\<rparr> \<and>
      next_B (mem s' 4176) = 4400 \<and> free_list s' = 4096 \<and>
      catalog (mem s') (free_list s') [4096, 4136, 4176, 4400])"
proof -
  have nonneg: "0 \<le> sint (300 :: c_int)"
    by simp
  have nonempty: "[4096, 4136, 4176 :: addr] \<noteq> []"
    by simp
  have none: "\<forall>b\<in>set [4096, 4136, 4176]. \<not> qualifies (mem example_heap b) 300"
    by (simp add: example_heap_def example_mem_def qualifies_def)
  have granted: "extender_grants example_heap (scast (300 :: c_int) + sizeof_Block)"
    by (simp add: extender_grants_def sbrk_def example_heap_def sizeof_Block_def)
  from append_after_tail [OF well_formed_example_heap nonempty nonneg none granted]
    well_formed_example_heap nonneg none granted
  show ?thesis
    by (auto simp: example_heap_def sizeof_Block_def)
qed

section \<open>What a call returns\<close>



section \<open>First fit\<close>

text \<open>
  Claim C2. On a well-formed heap the walk hands out the first block of the catalog,
  from its head, that is free (\<^verbatim>\<open>is_free == 1\<close>) and whose recorded size is strictly
  greater than the requested size: its payload pointer is returned and it is marked
  allocated. When no block passes the test the pointer returned is null or the payload
  of a new block at the old break. The payload of a block that does not pass the test
  is never returned; in particular not that of a block whose size equals the requested
  size, and not that of a block that is not free.
\<close>

theorem first_fit_selection:
  assumes "well_formed base s bs" "0 \<le> sint sz"
  shows "\<exists>p s'. my_malloc s sz = Some (p, s') \<and>
    (case find (\<lambda>b. qualifies (mem s b) sz) bs of
       Some c \<Rightarrow> p = c + sizeof_Block \<and> is_free (mem s' c) = 0
     | None \<Rightarrow> p = NULL \<or> p = brk s + sizeof_Block) \<and>
    (\<forall>b\<in>set bs. \<not> qualifies (mem s b) sz \<longrightarrow> p \<noteq> b + sizeof_Block) \<and>
    (\<forall>b\<in>set bs. size_B (mem s b) = scast sz \<longrightarrow> p \<noteq> b + sizeof_Block) \<and>
    (\<forall>b\<in>set bs. is_free (mem s b) \<noteq> 1 \<longrightarrow> p \<noteq> b + sizeof_Block)"
proof -
  have "\<exists>p s'. my_malloc s sz = Some (p, s') \<and>
    (case find (\<lambda>b. qualifies (mem s b) sz) bs of
       Some c \<Rightarrow> p = c + sizeof_Block \<and> is_free (mem s' c) = 0
     | None \<Rightarrow> p = NULL \<or> p = brk s + sizeof_Block) \<and>
    (\<forall>b\<in>set bs. \<not> qualifies (mem s b) sz \<longrightarrow> p \<noteq> b + sizeof_Block)"
  proof (cases "find (\<lambda>b. qualifies (mem s b) sz) bs")
    case None
    then have none: "\<forall>b\<in>set bs. \<not> qualifies (mem s b) sz"
      by (simp add: find_None_iff)
    from assms(1) have chain: "catalog (mem s) (free_list s) bs"
      by (simp add: well_formed_def)
    show ?thesis
    proof (cases "uint (brk s) + sint sz + 24 \<le> uint (brk_limit s)")
      case True
      from my_malloc_extends [OF assms none True] obtain s' where
        "my_malloc s sz = Some (brk s + sizeof_Block, s')"
        by blast
      moreover have "brk s + sizeof_Block \<noteq> b + sizeof_Block" if "b \<in> set bs" for b
        using well_formed_below_break [OF assms(1) that] by simp
      ultimately show ?thesis
        using None by auto
    next
      case False
      have "NULL \<noteq> b + sizeof_Block" if "b \<in> set bs" for b
        using payload_nonnull [OF assms(1) that] by simp
      with my_malloc_refuses [OF assms(2) chain none False] None show ?thesis
        by auto
    qed
  next
    case (Some c)
    from find_first [OF Some] obtain pre post where
      bs: "bs = pre @ c # post" and c: "qualifies (mem s c) sz"
      and pre: "\<forall>b\<in>set pre. \<not> qualifies (mem s b) sz"
      by blast
    from assms(1) have chain: "catalog (mem s) (free_list s) (pre @ c # post)"
      by (simp add: well_formed_def bs)
    from bs have member: "c \<in> set bs"
      by simp
    have call: "my_malloc s sz = Some (take_block s sz c)"
      by (rule my_malloc_hit [OF assms(2) chain pre c])
    from take_block_props [OF assms(1) member assms(2) c] obtain s' where
      "take_block s sz c = (c + sizeof_Block, s')" "is_free (mem s' c) = 0"
      by blast
    moreover have "c + sizeof_Block \<noteq> b + sizeof_Block" if "\<not> qualifies (mem s b) sz" for b
      using that c by auto
    ultimately show ?thesis
      using call Some by auto
  qed
  moreover have "\<not> qualifies (mem s b) sz" if "size_B (mem s b) = scast sz" for b
    using that by (simp add: qualifies_def)
  moreover have "\<not> qualifies (mem s b) sz" if "is_free (mem s b) \<noteq> 1" for b
    using that by (simp add: qualifies_def)
  ultimately show ?thesis
    by blast
qed

theorem first_fit_selection_witness:
  "well_formed 4096 example_heap [4096, 4136, 4176] \<and> 0 \<le> sint (16 :: c_int) \<and>
   find (\<lambda>b. qualifies (mem example_heap b) 16) [4096, 4136, 4176] = Some 4176 \<and>
   is_free (mem example_heap 4096) \<noteq> 1 \<and>
   size_B (mem example_heap 4136) = scast (16 :: c_int) \<and>
   \<not> qualifies (mem example_heap 4096) 16 \<and> \<not> qualifies (mem example_heap 4136) 16 \<and>
   (\<exists>s'. my_malloc example_heap 16 = Some (4176 + sizeof_Block, s') \<and>
      is_free (mem s' 4176) = 0) \<and>
   4176 + sizeof_Block \<noteq> 4096 + sizeof_Block \<and> 4176 + sizeof_Block \<noteq> 4136 + sizeof_Block"
proof -
  have nonneg: "0 \<le> sint (16 :: c_int)"
    by simp
  have first: "find (\<lambda>b. qualifies (mem example_heap b) 16) [4096, 4136, 4176] = Some 4176"
    by (simp add: example_heap_def example_mem_def qualifies_def)
  have others: "is_free (mem example_heap 4096) \<noteq> 1"
    "size_B (mem example_heap 4136) = scast (16 :: c_int)"
    "\<not> qualifies (mem example_heap 4096) 16" "\<not> qualifies (mem example_heap 4136) 16"
    by (simp_all add: example_heap_def example_mem_def qualifies_def)
  from first_fit_selection [OF well_formed_example_heap nonneg]
    well_formed_example_heap nonneg first others
  show ?thesis
    by (auto simp: sizeof_Block_def)
qed

section \<open>The failure value\<close>

text \<open>
  Claim C9, as stated, fails: a negative size and a refusal of the heap extender both
  make \<^verbatim>\<open>my_malloc\<close> return the null pointer, so the two failures cannot be told
  apart by the value returned.
\<close>

theorem failures_share_null:
  "my_malloc exhausted_heap (- 1) = Some (NULL, exhausted_heap) \<and>
   my_malloc exhausted_heap 16 = Some (NULL, exhausted_heap\<lparr>sbrk_calls := [40]\<rparr>) \<and>
   \<not> fst (the (my_malloc exhausted_heap (- 1))) \<noteq> fst (the (my_malloc exhausted_heap 16))"
  by (simp add: my_malloc_def empty_catalog_path_def request_memory_def sbrk_def
      exhausted_heap_def sizeof_Block_def)


text \<open>
  Claim C9, amended. On a well-formed heap \<^verbatim>\<open>my_malloc\<close> returns the null pointer
  exactly when the size is negative or when no block qualifies and the heap extender
  refuses the request. Both failures return this one value; every successful
  allocation, one of size zero included, returns a pointer that is not null.
\<close>

theorem failure_value_is_null:
  assumes "well_formed base s bs"
  shows "\<exists>p s'. my_malloc s sz = Some (p, s') \<and>
    (p = NULL \<longleftrightarrow>
       sint sz < 0 \<or>
       (\<forall>b\<in>set bs. \<not> qualifies (mem s b) sz) \<and>
       \<not> extender_grants s (scast sz + sizeof_Block))"
proof (cases "sint sz < 0")
  case True
  then show ?thesis
    by (simp add: my_malloc_negative)
next
  case False
  then have nonneg: "0 \<le> sint sz"
    by simp
  from assms have chain: "catalog (mem s) (free_list s) bs"
    by (simp add: well_formed_def)
  show ?thesis
  proof (cases "\<exists>b\<in>set bs. qualifies (mem s b) sz")
    case True
    from split_list_first_prop [OF True] obtain pre c post where
      bs: "bs = pre @ c # post" and c: "qualifies (mem s c) sz"
      and pre: "\<forall>b\<in>set pre. \<not> qualifies (mem s b) sz"
      by blast
    from chain have chain': "catalog (mem s) (free_list s) (pre @ c # post)"
      by (simp add: bs)
    from bs have member: "c \<in> set bs"
      by simp
    have call: "my_malloc s sz = Some (take_block s sz c)"
      by (rule my_malloc_hit [OF nonneg chain' pre c])
    from take_block_props [OF assms member nonneg c] obtain s' where
      "take_block s sz c = (c + sizeof_Block, s')"
      by blast
    with call payload_nonnull [OF assms member] True False show ?thesis
      by auto
  next
    case none': False
    then have none: "\<forall>b\<in>set bs. \<not> qualifies (mem s b) sz"
      by blast
    show ?thesis
    proof (cases "uint (brk s) + sint sz + 24 \<le> uint (brk_limit s)")
      case True
      from my_malloc_extends [OF assms nonneg none True] obtain s' where
        s': "my_malloc s sz = Some (brk s + sizeof_Block, s')"
        "uint (brk s + sizeof_Block) = uint (brk s) + 24"
        by blast
      from s'(2) have "0 < uint (brk s + sizeof_Block)"
        using uint_ge_0 [of "brk s"] by linarith
      then have "brk s + sizeof_Block \<noteq> NULL"
        by auto
      with s'(1) True nonneg False show ?thesis
        by (auto simp: extender_grants_iff)
    next
      case refused: False
      with nonneg have "\<not> extender_grants s (scast sz + sizeof_Block)"
        by (simp add: extender_grants_iff)
      with my_malloc_refuses [OF nonneg chain none refused] none show ?thesis
        by simp
    qed
  qed
qed

theorem failure_value_is_null_witness:
  "well_formed 4096 example_heap [4096, 4136, 4176] \<and>
   \<not> sint (0 :: c_int) < 0 \<and> extender_grants example_heap (scast (0 :: c_int) + sizeof_Block) \<and>
   (\<exists>p s'. my_malloc example_heap 0 = Some (p, s') \<and> p \<noteq> NULL)"
proof -
  have granted: "extender_grants example_heap (scast (0 :: c_int) + sizeof_Block)"
    by (simp add: extender_grants_def sbrk_def example_heap_def sizeof_Block_def)
  from failure_value_is_null [OF well_formed_example_heap, of 0] granted
    well_formed_example_heap
  show ?thesis
    by auto
qed

section \<open>Splitting\<close>

text \<open>
  Claim C3, as stated, fails: the remainder block is not created at the size of a header
  plus the requested size past the payload start of the candidate. In the example the
  candidate is the block at 4176, its payload starts at 4200, and the remainder of a
  request of 16 bytes is created at 4216, not at 4240, where nothing is written.
\<close>

theorem remainder_not_header_past_payload:
  "my_malloc example_heap 16 =
     Some (4176 + sizeof_Block, example_heap\<lparr>mem := example_mem
       (4216 := \<lparr>size_B = 160, next_B = NULL, is_free = 1\<rparr>,
        4176 := \<lparr>size_B = 16, next_B = 4216, is_free = 0\<rparr>)\<rparr>) \<and>
   \<not> 4216 = (4176 + sizeof_Block) + (sizeof_Block + 16) \<and>
   (example_mem
       (4216 := \<lparr>size_B = 160, next_B = NULL, is_free = 1\<rparr>,
        4176 := \<lparr>size_B = 16, next_B = 4216, is_free = 0\<rparr>))
     ((4176 + sizeof_Block) + (sizeof_Block + 16)) = blank"
  by (simp add: my_malloc_def search_loop.simps take_block_def qualifies_def
      set_is_free_def set_size_def set_next_def example_heap_def example_mem_def
      sizeof_Block_def Let_def fun_upd_twist blank_def Block_updates)

text \<open>
  Claim C3, amended. When the block \<open>c\<close> is the first that qualifies, it is handed out
  and split if and only if its recorded size exceeds the requested size plus the size
  of a header plus 1. The remainder block is then created at the size of a header plus
  the requested size past the start of the header of \<open>c\<close>, that is the requested size
  past its payload start; it gets the old size minus the size of a header minus the
  requested size, is marked free, and is linked into the catalog right after \<open>c\<close>,
  whose size becomes the requested size. Otherwise \<open>c\<close> keeps its size, only its flag
  changes, and the catalog holds the same blocks.
\<close>

theorem split_rule:
  assumes "well_formed base s bs" "0 \<le> sint sz" "bs = pre @ c # post"
    "\<forall>b\<in>set pre. \<not> qualifies (mem s b) sz" "qualifies (mem s c) sz"
  shows "\<exists>s'. my_malloc s sz = Some (c + sizeof_Block, s') \<and> free_list s' = free_list s \<and>
    (if sint sz + uint sizeof_Block + 1 < uint (size_B (mem s c))
     then mem s' = (mem s)
            (c + sizeof_Block + scast sz :=
               \<lparr>size_B = size_B (mem s c) - sizeof_Block - scast sz,
                next_B = next_B (mem s c), is_free = 1\<rparr>,
             c := \<lparr>size_B = scast sz, next_B = c + sizeof_Block + scast sz, is_free = 0\<rparr>) \<and>
          uint (c + sizeof_Block + scast sz) = uint c + uint sizeof_Block + sint sz \<and>
          uint (c + sizeof_Block + scast sz) = uint (c + sizeof_Block) + sint sz \<and>
          uint (size_B (mem s' (c + sizeof_Block + scast sz))) =
            uint (size_B (mem s c)) - uint sizeof_Block - sint sz \<and>
          catalog (mem s') (free_list s') (pre @ c # (c + sizeof_Block + scast sz) # post)
     else mem s' = (mem s)(c := (mem s c)\<lparr>is_free := 0\<rparr>) \<and>
          catalog (mem s') (free_list s') bs)"
proof -
  let ?nb = "c + sizeof_Block + scast sz"
  from assms(1) have chain: "catalog (mem s) (free_list s) (pre @ c # post)"
    by (simp add: well_formed_def assms(3))
  from assms(3) have member: "c \<in> set bs"
    by simp
  from assms(1) member have inside: "uint c + 24 + uint (size_B (mem s c)) \<le> uint (brk s)"
    by (rule well_formed_block)
  then have payload: "uint (c + sizeof_Block) = uint c + 24"
    by (rule uint_payload) simp
  have call: "my_malloc s sz = Some (take_block s sz c)"
    by (rule my_malloc_hit [OF assms(2) chain assms(4,5)])
  show ?thesis
  proof (cases "sint sz + 25 < uint (size_B (mem s c))")
    case True
    let ?m' = "(mem s)
      (?nb := \<lparr>size_B = size_B (mem s c) - sizeof_Block - scast sz,
                next_B = next_B (mem s c), is_free = 1\<rparr>,
       c := \<lparr>size_B = scast sz, next_B = ?nb, is_free = 0\<rparr>)"
    from assms(2) have differ: "?nb \<noteq> c"
      by (rule split_offset_nonzero)
    from assms(2) inside True have offsets: "uint ?nb = uint c + 24 + sint sz"
      "uint (size_B (mem s c) - sizeof_Block - scast sz) = uint (size_B (mem s c)) - 24 - sint sz"
      by (rule uint_remainder)+
    from offsets(1) have "0 < uint ?nb"
      using uint_ge_0 [of c] assms(2) by linarith
    then have nonnull: "?nb \<noteq> NULL"
      by auto
    from assms(1) member assms(2) True have "?nb \<notin> set bs"
      by (rule split_block_outside)
    then have outside: "?nb \<notin> set (pre @ c # post)"
      by (simp add: assms(3))
    have "catalog ?m' (free_list s) (pre @ c # ?nb # post)"
      using chain outside nonnull by (rule catalog_insert_after) (simp_all add: differ)
    with call True differ offsets payload show ?thesis
      by (simp add: take_block_split [OF assms(2) True] uint_sizeof_Block)
  next
    case False
    have "catalog ((mem s)(c := (mem s c)\<lparr>is_free := 0\<rparr>)) (free_list s) (pre @ c # post) =
        catalog (mem s) (free_list s) (pre @ c # post)"
      by (rule catalog_same_links) simp
    with call False chain show ?thesis
      by (simp add: take_block_whole [OF assms(2) False] uint_sizeof_Block assms(3))
  qed
qed

theorem split_rule_witness:
  "well_formed 4096 example_heap [4096, 4136, 4176] \<and> 0 \<le> sint (16 :: c_int) \<and>
   [4096, 4136, 4176] = [4096, 4136] @ 4176 # [] \<and>
   \<not> qualifies (mem example_heap 4096) 16 \<and> \<not> qualifies (mem example_heap 4136) 16 \<and>
   qualifies (mem example_heap 4176) 16 \<and>
   sint (16 :: c_int) + uint sizeof_Block + 1 < uint (size_B (mem example_heap 4176)) \<and>
   (\<exists>s'. my_malloc example_heap 16 = Some (4200, s') \<and>
      mem s' 4176 = \<lparr>size_B = 16, next_B = 4216, is_free = 0\<rparr> \<and>
      mem s' 4216 = \<lparr>size_B = 160, next_B = NULL, is_free = 1\<rparr> \<and>
      catalog (mem s') (free_list s') [4096, 4136, 4176, 4216])"
proof -
  have nonneg: "0 \<le> sint (16 :: c_int)"
    by simp
  have parts: "[4096, 4136, 4176] = [4096, 4136] @ 4176 # ([] :: addr list)"
    by simp
  have before: "\<forall>b\<in>set [4096, 4136]. \<not> qualifies (mem example_heap b) 16"
    by (simp add: example_heap_def example_mem_def qualifies_def)
  have fit: "qualifies (mem example_heap 4176) 16"
    by (simp add: example_heap_def example_mem_def qualifies_def)
  have big: "sint (16 :: c_int) + uint sizeof_Block + 1 < uint (size_B (mem example_heap 4176))"
    by (simp add: example_heap_def example_mem_def sizeof_Block_def)
  from split_rule [OF well_formed_example_heap nonneg parts before fit] big
    well_formed_example_heap nonneg before fit
  show ?thesis
    by (auto simp: example_heap_def example_mem_def sizeof_Block_def)
qed


section \<open>Two allocations at program start\<close>

text \<open>
  Claim C5, evaluated. At program start two calls \<^verbatim>\<open>my_malloc(16)\<close> return 4120 and
  4160, two payloads of 16 bytes that do not overlap, and the second block lies in
  fresh memory. The second block is not appended to the catalog: the head is still the
  null pointer and the first block still has a null \<^verbatim>\<open>next\<close>, so the catalog is
  empty and is not the chain of the two blocks.
\<close>

theorem second_block_not_linked:
  "my_malloc fresh_heap 16 = Some (4120, after_first) \<and>
   my_malloc after_first 16 = Some (4160, after_second) \<and>
   uint (4120 :: addr) + 16 \<le> uint (4160 :: addr) \<and>
   free_list after_second = NULL \<and>
   next_B (mem after_second 4096) = NULL \<and>
   catalog (mem after_second) (free_list after_second) [] \<and>
   \<not> catalog (mem after_second) (free_list after_second) [4096, 4136]"
  using first_call second_call by (simp add: fresh_heap_def after_second_def)

end
